theory Spec2Isabelle
  imports Complex_Main "HOL-Library.Multiset"
begin

section \<open>The price-history table\<close>

text \<open>
  The Prisma model \<^verbatim>\<open>TokenDailyPriceHistoryUsd\<close> has the columns
  \<^verbatim>\<open>id, token, timestamp, price\<close> and the constraint
  \<^verbatim>\<open>@@unique([token, timestamp])\<close>. A \<^verbatim>\<open>DateTime\<close> is a JavaScript
  \<^verbatim>\<open>Date\<close>: an integer number of milliseconds since the epoch. The table is the
  list of its rows in insertion order; the surrogate \<^verbatim>\<open>id\<close> is the position and
  is not stored.
\<close>

type_synonym date = int

record row =
  row_token :: string
  row_timestamp :: date
  row_price :: rat

type_synonym table = "row list"

text \<open>An element of \<^verbatim>\<open>prices\<close>: a unix epoch timestamp in seconds and a price.\<close>

record pricePoint =
  timestamp :: int
  price :: rat

text \<open>The job payload \<^verbatim>\<open>{ forceRefresh, token, startTimestamp }\<close>.\<close>

record job =
  forceRefresh :: bool
  token :: string
  startTimestamp :: date

text \<open>
  An invocation is a job together with what \<^verbatim>\<open>apiCallToGetPrices\<close> returned for
  it: the price service is outside the repository, so its answer is an input.
\<close>

type_synonym invocation = "job \<times> pricePoint list"

datatype error = TypeError | UniqueConstraint

subsection \<open>The Prisma calls the handler makes\<close>

definition rowsOf :: "string \<Rightarrow> table \<Rightarrow> row list" where
  "rowsOf tok tbl = filter (\<lambda>r. row_token r = tok) tbl"

definition othersOf :: "string \<Rightarrow> table \<Rightarrow> row list" where
  "othersOf tok tbl = filter (\<lambda>r. row_token r \<noteq> tok) tbl"

text \<open>\<^verbatim>\<open>aggregate({ _max: { timestamp: true }, where: { token } })\<close>: the largest
  timestamp among the token's rows, \<^verbatim>\<open>null\<close> when it has none.\<close>

definition aggregate_max :: "string \<Rightarrow> table \<Rightarrow> date option" where
  "aggregate_max tok tbl =
     (case rowsOf tok tbl of
        [] \<Rightarrow> None
      | r # rs \<Rightarrow> Some (fold max (map row_timestamp rs) (row_timestamp r)))"

text \<open>\<^verbatim>\<open>deleteMany({ where: { token } })\<close>: removes the token's rows and returns
  their count.\<close>

definition deleteMany :: "string \<Rightarrow> table \<Rightarrow> nat \<times> table" where
  "deleteMany tok tbl = (length (rowsOf tok tbl), othersOf tok tbl)"

definition keyOf :: "row \<Rightarrow> string \<times> date" where
  "keyOf r = (row_token r, row_timestamp r)"

text \<open>
  \<^verbatim>\<open>createMany({ data })\<close> is one INSERT statement: when a row of \<^verbatim>\<open>data\<close>
  repeats a (token, timestamp) pair of the table or of \<^verbatim>\<open>data\<close> itself, the unique
  constraint fails the whole statement and nothing is inserted; otherwise every row is
  appended and the count returned.
\<close>

definition conflicting :: "row list \<Rightarrow> table \<Rightarrow> row list" where
  "conflicting data tbl = filter (\<lambda>r. keyOf r \<in> set (map keyOf tbl)) data"

definition createMany :: "row list \<Rightarrow> table \<Rightarrow> error + nat \<times> table" where
  "createMany data tbl =
     (if conflicting data tbl = [] \<and> distinct (map keyOf data)
      then Inr (length data, tbl @ data)
      else Inl UniqueConstraint)"

text \<open>
  \<^verbatim>\<open>createMany({ data, skipDuplicates: true })\<close> inserts with
  ON CONFLICT DO NOTHING: a row whose (token, timestamp) pair is already there, in the
  table or earlier in \<^verbatim>\<open>data\<close>, is skipped; the count is that of the rows
  inserted.
\<close>

fun createManySkip :: "row list \<Rightarrow> table \<Rightarrow> nat \<times> table" where
  "createManySkip [] tbl = (0, tbl)"
| "createManySkip (r # rs) tbl =
     (if keyOf r \<in> set (map keyOf tbl) then createManySkip rs tbl
      else (case createManySkip rs (tbl @ [r]) of (n, t) \<Rightarrow> (Suc n, t)))"

subsection \<open>The date helpers\<close>

text \<open>
  Modelled from the spec: \<^verbatim>\<open>addOneDay\<close> and \<^verbatim>\<open>unixEpoch\<close> are called by
  the handler and are not in the sources. The spec's validator accepts a batch that
  starts at "d + 1 day", and the handler's comments say that \<^verbatim>\<open>prices[0].timestamp\<close>
  "is a unix epoch timestamp" which \<^verbatim>\<open>new Date(timestamp * 1000)\<close> turns into a
  date: so one day is 86400000 milliseconds and the epoch of a date is its whole seconds.
\<close>

definition addOneDay :: "date \<Rightarrow> date" where
  "addOneDay d = d + 86400000"

definition unixEpoch :: "date \<Rightarrow> int" where
  "unixEpoch d = d div 1000"

text \<open>
  What \<^verbatim>\<open>unixEpoch(addOneDay(maxTimestamp))\<close> is when \<^verbatim>\<open>maxTimestamp\<close> is
  \<^verbatim>\<open>null\<close> depends on the absent helpers, so it is the parameter \<open>nullNext\<close>:
  \<open>Some n\<close> when they yield the number \<open>n\<close>, \<open>None\<close> when they yield
  \<^verbatim>\<open>NaN\<close>, which \<^verbatim>\<open>!==\<close> finds different from every number.
\<close>

definition nextEpoch :: "int option \<Rightarrow> date option \<Rightarrow> int option" where
  "nextEpoch nullNext maxTimestamp =
     (case maxTimestamp of
        None \<Rightarrow> nullNext
      | Some d \<Rightarrow> Some (unixEpoch (addOneDay d)))"

section \<open>The handler\<close>

text \<open>
  The handler returns nothing; what a caller can observe is whether it returned at the
  validation, ran to its end, or threw. \<open>Written deletedCount createdCount\<close> keeps the
  two counts the handler computes.
\<close>

datatype outcome = Rejected | Written nat nat | Failed error

definition mkRow :: "string \<Rightarrow> pricePoint \<Rightarrow> row" where
  "mkRow tok p = \<lparr>row_token = tok, row_timestamp = timestamp p * 1000, row_price = price p\<rparr>"

text \<open>
  The handler of \<^verbatim>\<open>src/unnamed/part_000\<close> and of \<^verbatim>\<open>scenario_01.ts\<close>
  (lines 145 to 186), run without interruption. \<^verbatim>\<open>prices[0].timestamp\<close> on an
  empty array throws a TypeError, after the aggregate and before any write.
\<close>

definition handler :: "int option \<Rightarrow> job \<Rightarrow> pricePoint list \<Rightarrow> table \<Rightarrow> outcome \<times> table" where
  "handler nullNext j prices tbl =
     (let maxTimestamp = aggregate_max (token j) tbl in
      case prices of
        [] \<Rightarrow> (Failed TypeError, tbl)
      | p # _ \<Rightarrow>
          if Some (timestamp p) \<noteq> nextEpoch nullNext maxTimestamp then (Rejected, tbl)
          else
            (case (if forceRefresh j then deleteMany (token j) tbl else (0, tbl)) of
               (deletedCount, tbl1) \<Rightarrow>
                 (case createMany (map (mkRow (token j)) prices) tbl1 of
                    Inl e \<Rightarrow> (Failed e, tbl1)
                  | Inr (createdCount, tbl2) \<Rightarrow> (Written deletedCount createdCount, tbl2))))"

text \<open>
  The top-level listing of \<^verbatim>\<open>scenario_01.ts\<close> (lines 34 to 67): the same steps,
  with \<^verbatim>\<open>skipDuplicates: true\<close>.
\<close>

definition script :: "int option \<Rightarrow> job \<Rightarrow> pricePoint list \<Rightarrow> table \<Rightarrow> outcome \<times> table" where
  "script nullNext j prices tbl =
     (let maxTimestamp = aggregate_max (token j) tbl in
      case prices of
        [] \<Rightarrow> (Failed TypeError, tbl)
      | p # _ \<Rightarrow>
          if Some (timestamp p) \<noteq> nextEpoch nullNext maxTimestamp then (Rejected, tbl)
          else
            (case (if forceRefresh j then deleteMany (token j) tbl else (0, tbl)) of
               (deletedCount, tbl1) \<Rightarrow>
                 (case createManySkip (map (mkRow (token j)) prices) tbl1 of
                    (createdCount, tbl2) \<Rightarrow> (Written deletedCount createdCount, tbl2))))"

subsection \<open>The handler as a process\<close>

text \<open>
  Each \<^verbatim>\<open>await\<close> of a Prisma call is one statement on the shared database, and
  other workers' statements can run between two of them. A process is at the aggregate,
  at the \<^verbatim>\<open>deleteMany\<close> (only with \<^verbatim>\<open>forceRefresh\<close>), at the
  \<^verbatim>\<open>createMany\<close>, or done. The validation runs in the continuation of the
  aggregate, with no statement in between.
\<close>

datatype pc = AtAggregate | AtDelete | AtCreate nat | Done outcome

fun step :: "int option \<Rightarrow> invocation \<Rightarrow> pc \<Rightarrow> table \<Rightarrow> pc \<times> table" where
  "step nullNext (j, prices) AtAggregate tbl =
     (let maxTimestamp = aggregate_max (token j) tbl in
      case prices of
        [] \<Rightarrow> (Done (Failed TypeError), tbl)
      | p # _ \<Rightarrow>
          if Some (timestamp p) \<noteq> nextEpoch nullNext maxTimestamp then (Done Rejected, tbl)
          else if forceRefresh j then (AtDelete, tbl)
          else (AtCreate 0, tbl))"
| "step nullNext (j, prices) AtDelete tbl =
     (case deleteMany (token j) tbl of (deletedCount, tbl1) \<Rightarrow> (AtCreate deletedCount, tbl1))"
| "step nullNext (j, prices) (AtCreate deletedCount) tbl =
     (case createMany (map (mkRow (token j)) prices) tbl of
        Inl e \<Rightarrow> (Done (Failed e), tbl)
      | Inr (createdCount, tbl2) \<Rightarrow> (Done (Written deletedCount createdCount), tbl2))"
| "step nullNext (j, prices) (Done out) tbl = (Done out, tbl)"

text \<open>
  A schedule is the list of the processes' indices in the order in which their
  statements reach the database.
\<close>

fun run :: "int option \<Rightarrow> invocation list \<Rightarrow> nat list \<Rightarrow> pc list \<times> table \<Rightarrow> pc list \<times> table" where
  "run nullNext invs [] c = c"
| "run nullNext invs (i # sched) (pcs, tbl) =
     (if i < length invs \<and> i < length pcs
      then (case step nullNext (invs ! i) (pcs ! i) tbl of
              (pc', tbl') \<Rightarrow> run nullNext invs sched (pcs[i := pc'], tbl'))
      else run nullNext invs sched (pcs, tbl))"

definition isDone :: "pc \<Rightarrow> bool" where
  "isDone p = (case p of Done _ \<Rightarrow> True | _ \<Rightarrow> False)"

definition start :: "invocation list \<Rightarrow> table \<Rightarrow> pc list \<times> table" where
  "start invs tbl = (replicate (length invs) AtAggregate, tbl)"

text \<open>Invocations run one after another, each to its end.\<close>

fun sequential :: "int option \<Rightarrow> invocation list \<Rightarrow> table \<Rightarrow> table" where
  "sequential nullNext [] tbl = tbl"
| "sequential nullNext ((j, prices) # invs) tbl =
     sequential nullNext invs (snd (handler nullNext j prices tbl))"

subsection \<open>Calendar days and contiguity\<close>

text \<open>The calendar day (UTC) of an epoch in seconds and of a date in milliseconds.\<close>

definition calendarDay :: "int \<Rightarrow> int" where
  "calendarDay epoch = epoch div 86400"

definition dayOfDate :: "date \<Rightarrow> int" where
  "dayOfDate d = d div 86400000"

text \<open>Each element is the one before it plus one.\<close>

fun consecutive :: "int list \<Rightarrow> bool" where
  "consecutive (a # b # xs) = (b = a + 1 \<and> consecutive (b # xs))"
| "consecutive xs = True"

text \<open>
  The days stored for a token form a contiguous run: in ascending order each day is the
  one before it plus one, so there is no gap and no day twice.
\<close>

definition daysOf :: "string \<Rightarrow> table \<Rightarrow> int list" where
  "daysOf tok tbl = map (\<lambda>r. dayOfDate (row_timestamp r)) (rowsOf tok tbl)"

definition contiguous :: "string \<Rightarrow> table \<Rightarrow> bool" where
  "contiguous tok tbl = consecutive (sort (daysOf tok tbl))"

text \<open>A fetched batch that is itself a run of consecutive days, in order.\<close>

definition dailyRun :: "pricePoint list \<Rightarrow> bool" where
  "dailyRun prices = consecutive (map (\<lambda>p. calendarDay (timestamp p)) prices)"

text \<open>The number of rows an invocation inserted.\<close>

definition insertedRows :: "outcome \<Rightarrow> nat" where
  "insertedRows out = (case out of Written _ createdCount \<Rightarrow> createdCount | _ \<Rightarrow> 0)"

subsection \<open>The commit step as the spec words it\<close>

text \<open>
  The spec's commit engine "truncates the batch to the longest contiguous prefix
  starting at the acceptable date". \<open>spec_contiguousPrefix day prices\<close> follows these
  words: the longest prefix of \<open>prices\<close> whose days are \<open>day\<close>, \<open>day + 1\<close>, and
  so on. It is compared with what the handler inserts.
\<close>

fun spec_contiguousPrefix :: "int \<Rightarrow> pricePoint list \<Rightarrow> pricePoint list" where
  "spec_contiguousPrefix day [] = []"
| "spec_contiguousPrefix day (p # ps) =
     (if calendarDay (timestamp p) = day then p # spec_contiguousPrefix (day + 1) ps else [])"

subsection \<open>Example data\<close>

text \<open>
  One token; rows and fetched points at given epochs (in seconds). 1687305600 is
  2023-06-21 00:00:00 UTC, and the three days after it are 1687392000, 1687478400 and
  1687564800.
\<close>

definition exToken :: string where
  "exToken = ''0xA''"

definition exJob :: "bool \<Rightarrow> job" where
  "exJob force = \<lparr>forceRefresh = force, token = exToken, startTimestamp = 1687392000000\<rparr>"

definition exRow :: "int \<Rightarrow> rat \<Rightarrow> row" where
  "exRow epoch pr = \<lparr>row_token = exToken, row_timestamp = epoch * 1000, row_price = pr\<rparr>"

definition exPoint :: "int \<Rightarrow> rat \<Rightarrow> pricePoint" where
  "exPoint epoch pr = \<lparr>timestamp = epoch, price = pr\<rparr>"

text \<open>Two invocations with the same job and the same batch.\<close>

definition exTwo :: "invocation list" where
  "exTwo = [(exJob False, [exPoint 1687392000 2, exPoint 1687478400 3]),
            (exJob False, [exPoint 1687392000 2, exPoint 1687478400 3])]"

text \<open>A refreshing invocation and an appending one, both starting at the day after the
  stored row.\<close>

definition exRace :: "invocation list" where
  "exRace = [(exJob True, [exPoint 1687392000 2, exPoint 1687478400 3]),
             (exJob False, [exPoint 1687392000 9])]"

text \<open>
  Two appending invocations that start at 2023-06-21 and a refreshing one that starts
  at 2023-06-22; they are run on a table that holds 2023-06-20 (epoch 1687219200).
\<close>

definition exStale :: "invocation list" where
  "exStale = [(exJob False, [exPoint 1687305600 5]),
              (exJob False, [exPoint 1687305600 6]),
              (exJob True, [exPoint 1687392000 7])]"

subsection \<open>The invariant of interleaved appends\<close>

text \<open>
  A process that waits at its \<^verbatim>\<open>createMany\<close> either would pass the validation
  again on the table as it is now, or the first row of its batch is already stored (and
  its insert will throw).
\<close>

definition pending_ok :: "int option \<Rightarrow> invocation \<Rightarrow> table \<Rightarrow> bool" where
  "pending_ok v iv tbl =
     (case snd iv of
        [] \<Rightarrow> False
      | p # _ \<Rightarrow>
          Some (timestamp p) = nextEpoch v (aggregate_max (token (fst iv)) tbl) \<or>
          (token (fst iv), timestamp p * 1000) \<in> set (map keyOf tbl))"

text \<open>The processes that have finished.\<close>

definition doneSet :: "pc list \<Rightarrow> nat set" where
  "doneSet pcs = {k. k < length pcs \<and> isDone (pcs ! k)}"

text \<open>
  No process is at a \<^verbatim>\<open>deleteMany\<close>, every process at its insert is
  \<open>pending_ok\<close>, and the table is what the finished invocations produce when run
  one after another in some order.
\<close>

definition serial_inv :: "int option \<Rightarrow> invocation list \<Rightarrow> table \<Rightarrow> pc list \<times> table \<Rightarrow> bool" where
  "serial_inv v invs tbl0 c =
     (length (fst c) = length invs \<and>
      (\<forall>k < length invs. fst c ! k \<noteq> AtDelete) \<and>
      (\<forall>k < length invs. \<forall>n. fst c ! k = AtCreate n \<longrightarrow> pending_ok v (invs ! k) (snd c)) \<and>
      (\<exists>order. distinct order \<and> set order = doneSet (fst c) \<and>
         sequential v (map (nth invs) order) tbl0 = snd c))"

section \<open>Properties\<close>

subsection \<open>The watermark\<close>

lemma aggregate_max_None: "aggregate_max tok tbl = None \<longleftrightarrow> rowsOf tok tbl = []"
  by (simp add: aggregate_max_def split: list.splits)

lemma aggregate_max_Max:
  assumes "rowsOf tok tbl \<noteq> []"
  shows "aggregate_max tok tbl = Some (Max (set (map row_timestamp (rowsOf tok tbl))))"
proof (cases "rowsOf tok tbl")
  case Nil
  with assms show ?thesis by simp
next
  case (Cons a list)
  have "fold max (map row_timestamp list) (row_timestamp a) =
        Max (set (row_timestamp a # map row_timestamp list))"
    by (rule Max.set_eq_fold [symmetric])
  with Cons show ?thesis by (simp add: aggregate_max_def)
qed

lemma aggregate_max_ge:
  assumes "r \<in> set tbl" and "row_token r = tok"
  shows "\<exists>m. aggregate_max tok tbl = Some m \<and> row_timestamp r \<le> m"
proof -
  from assms have mem: "r \<in> set (rowsOf tok tbl)" by (simp add: rowsOf_def)
  then have ne: "rowsOf tok tbl \<noteq> []" by auto
  from mem have "row_timestamp r \<le> Max (set (map row_timestamp (rowsOf tok tbl)))"
    by (intro Max_ge) auto
  with aggregate_max_Max [OF ne] show ?thesis by simp
qed

lemma aggregate_max_mem:
  assumes "aggregate_max tok tbl = Some m"
  shows "\<exists>r \<in> set tbl. row_token r = tok \<and> row_timestamp r = m"
proof -
  from assms have ne: "rowsOf tok tbl \<noteq> []" by (auto simp: aggregate_max_def)
  then have "Max (set (map row_timestamp (rowsOf tok tbl))) \<in> set (map row_timestamp (rowsOf tok tbl))"
    by (intro Max_in) auto
  with aggregate_max_Max [OF ne] assms show ?thesis by (auto simp: rowsOf_def)
qed

lemma aggregate_max_upper:
  assumes "aggregate_max tok tbl = Some m" and "r \<in> set tbl" and "row_token r = tok"
  shows "row_timestamp r \<le> m"
  using aggregate_max_ge [OF assms(2,3)] assms(1) by auto

subsection \<open>The process and the uninterrupted handler\<close>

lemma step_thrice_handler:
  "(case step v (j, ps) AtAggregate tbl of (p1, t1) \<Rightarrow>
     (case step v (j, ps) p1 t1 of (p2, t2) \<Rightarrow> step v (j, ps) p2 t2)) =
   (Done (fst (handler v j ps tbl)), snd (handler v j ps tbl))"
  by (cases ps) (auto simp: handler_def Let_def deleteMany_def split: sum.splits prod.splits)

subsection \<open>Validation against a present watermark\<close>

lemma calendarDay_next: "calendarDay (unixEpoch (addOneDay d)) = calendarDay (unixEpoch d) + 1"
proof -
  have "(d + 86400 * 1000) div 1000 = d div 1000 + 86400" by simp
  then have "(d + 86400000) div 1000 div 86400 = (d div 1000 + 86400) div 86400" by simp
  also have "\<dots> = d div 1000 div 86400 + 1" by simp
  finally show ?thesis by (simp add: calendarDay_def unixEpoch_def addOneDay_def)
qed

lemmas ex_defs = exToken_def exJob_def exRow_def exPoint_def

lemma ex_watermark: "aggregate_max (token (exJob f)) [exRow 1687305600 1] = Some 1687305600000"
  by (simp add: aggregate_max_def rowsOf_def ex_defs)

text \<open>
  C5, as the claim states it, fails. The spec's date is a calendar day with the time of
  day discarded. With 2023-06-21 (day 19529) as the watermark, a batch whose first point
  is 2023-06-22 12:00:00 UTC (epoch 1687435200) starts on the watermark's day plus one,
  and the handler rejects it.
\<close>

theorem next_day_rejected_counterexample:
  "aggregate_max (token (exJob False)) [exRow 1687305600 1] = Some 1687305600000 \<and>
   calendarDay (unixEpoch 1687305600000) = 19529 \<and>
   calendarDay (timestamp (exPoint 1687435200 2)) = 19529 + 1 \<and>
   handler None (exJob False) [exPoint 1687435200 2] [exRow 1687305600 1] =
     (Rejected, [exRow 1687305600 1])"
  by code_simp

text \<open>
  C5, amended. When the token has rows, with latest date \<open>d\<close>, the handler goes on to
  its writes if and only if the first fetched timestamp equals
  \<^verbatim>\<open>unixEpoch(addOneDay(d))\<close>, to the second; with any other first timestamp it
  returns at the validation and the table is what it was: nothing deleted, nothing
  inserted. A batch that passes starts on the calendar day after the watermark's; not
  every batch that starts on that day passes.
\<close>

theorem validation_accepts_iff:
  assumes "aggregate_max (token j) tbl = Some d" and "prices = p # ps"
  shows "(fst (handler v j prices tbl) \<noteq> Rejected \<longleftrightarrow> timestamp p = unixEpoch (addOneDay d)) \<and>
         (timestamp p \<noteq> unixEpoch (addOneDay d) \<longrightarrow> handler v j prices tbl = (Rejected, tbl)) \<and>
         (fst (handler v j prices tbl) \<noteq> Rejected \<longrightarrow>
            calendarDay (timestamp p) = calendarDay (unixEpoch d) + 1)"
proof -
  have a: "fst (handler v j prices tbl) \<noteq> Rejected \<longleftrightarrow> timestamp p = unixEpoch (addOneDay d)"
    using assms by (auto simp: handler_def nextEpoch_def split: sum.splits prod.splits)
  have b: "timestamp p \<noteq> unixEpoch (addOneDay d) \<longrightarrow> handler v j prices tbl = (Rejected, tbl)"
    using assms by (simp add: handler_def nextEpoch_def)
  from a calendarDay_next [of d] b show ?thesis by simp
qed

theorem validation_accepts_iff_witness:
  "aggregate_max (token (exJob False)) [exRow 1687305600 1] = Some 1687305600000 \<and>
   fst (handler None (exJob False) [exPoint 1687392000 2] [exRow 1687305600 1]) \<noteq> Rejected \<and>
   calendarDay (timestamp (exPoint 1687392000 2)) = calendarDay (unixEpoch 1687305600000) + 1 \<and>
   handler None (exJob False) [exPoint 1687478400 2] [exRow 1687305600 1] =
     (Rejected, [exRow 1687305600 1])"
  using validation_accepts_iff [OF ex_watermark [of False] refl,
      where p = "exPoint 1687392000 2" and ps = "[]" and v = None]
    validation_accepts_iff [OF ex_watermark [of False] refl,
      where p = "exPoint 1687478400 2" and ps = "[]" and v = None]
    ex_watermark [of False]
  by (simp add: unixEpoch_def addOneDay_def exPoint_def)

lemmas eval_defs = handler_def Let_def aggregate_max_def rowsOf_def othersOf_def
  deleteMany_def createMany_def conflicting_def keyOf_def mkRow_def nextEpoch_def
  unixEpoch_def addOneDay_def ex_defs

text \<open>
  C10. The validation compares epoch seconds with \<^verbatim>\<open>!==\<close>, not calendar days:
  a batch whose first point is on the day after the watermark's day, at a second other
  than \<^verbatim>\<open>unixEpoch(addOneDay(maxTimestamp))\<close>, is rejected and nothing is
  written.
\<close>

theorem exact_epoch_comparison:
  assumes "aggregate_max (token j) tbl = Some d" and "prices = p # ps"
    and "calendarDay (timestamp p) = calendarDay (unixEpoch d) + 1"
    and "timestamp p \<noteq> unixEpoch (addOneDay d)"
  shows "handler v j prices tbl = (Rejected, tbl)"
  using assms by (simp add: handler_def nextEpoch_def)

theorem exact_epoch_comparison_witness:
  "calendarDay (timestamp (exPoint 1687392001 2)) = calendarDay (unixEpoch 1687305600000) + 1 \<and>
   timestamp (exPoint 1687392001 2) \<noteq> unixEpoch (addOneDay 1687305600000) \<and>
   handler None (exJob False) [exPoint 1687392001 2] [exRow 1687305600 1] =
     (Rejected, [exRow 1687305600 1])"
proof -
  have c: "calendarDay (timestamp (exPoint 1687392001 2)) = calendarDay (unixEpoch 1687305600000) + 1"
    by (simp add: calendarDay_def unixEpoch_def exPoint_def)
  have n: "timestamp (exPoint 1687392001 2) \<noteq> unixEpoch (addOneDay 1687305600000)"
    by (simp add: unixEpoch_def addOneDay_def exPoint_def)
  from exact_epoch_comparison [OF ex_watermark [of False] refl c n, where ps = "[]" and v = None] c n
  show ?thesis by simp
qed

subsection \<open>Replaying an invocation\<close>

lemma createMany_Inr:
  "createMany data tbl = Inr (c, t) \<Longrightarrow> c = length data \<and> t = tbl @ data"
  by (auto simp: createMany_def split: if_splits)

lemma createMany_Inl: "createMany data tbl = Inl e \<Longrightarrow> e = UniqueConstraint"
  by (auto simp: createMany_def split: if_splits)

text \<open>Once a row of the token at epoch \<open>e\<close> is stored, no batch starting at \<open>e\<close>
  passes the validation.\<close>

lemma next_after_row:
  assumes "r \<in> set tbl" and "row_token r = tok" and "row_timestamp r = e * 1000"
  shows "nextEpoch v (aggregate_max tok tbl) \<noteq> Some e"
proof -
  from aggregate_max_ge [OF assms(1,2)] obtain m
    where m: "aggregate_max tok tbl = Some m" "row_timestamp r \<le> m" by blast
  with assms(3) have "e * 1000 \<le> m" by simp
  then have "e < unixEpoch (addOneDay m)"
    by (simp add: unixEpoch_def addOneDay_def)
  with m show ?thesis by (simp add: nextEpoch_def)
qed

text \<open>
  C7. Running the handler twice in a row with the same token, the same batch and
  \<^verbatim>\<open>forceRefresh = false\<close>, from any table: the second run leaves the table as
  the first run left it and inserts no row.
\<close>

theorem replay_inserts_nothing:
  assumes "\<not> forceRefresh j"
  shows "snd (handler v j prices (snd (handler v j prices tbl))) = snd (handler v j prices tbl) \<and>
         insertedRows (fst (handler v j prices (snd (handler v j prices tbl)))) = 0"
proof (cases "\<exists>d c. fst (handler v j prices tbl) = Written d c")
  case False
  then have same: "snd (handler v j prices tbl) = tbl"
    using assms by (auto simp: handler_def Let_def split: list.splits sum.splits prod.splits)
  from False have "insertedRows (fst (handler v j prices tbl)) = 0"
    by (cases "fst (handler v j prices tbl)") (auto simp: insertedRows_def)
  with same show ?thesis by simp
next
  case True
  then obtain d c where w: "fst (handler v j prices tbl) = Written d c" by blast
  then obtain p ps where ps: "prices = p # ps"
    by (cases prices) (auto simp: handler_def)
  from w ps assms have t1: "snd (handler v j prices tbl) = tbl @ map (mkRow (token j)) prices"
    by (auto simp: handler_def Let_def split: if_splits sum.splits prod.splits dest: createMany_Inr)
  have "mkRow (token j) p \<in> set (tbl @ map (mkRow (token j)) prices)"
    using ps by simp
  from next_after_row [OF this, of "token j" "timestamp p" v]
  have "nextEpoch v (aggregate_max (token j) (tbl @ map (mkRow (token j)) prices)) \<noteq> Some (timestamp p)"
    by (simp add: mkRow_def)
  then have "handler v j prices (tbl @ map (mkRow (token j)) prices) =
      (Rejected, tbl @ map (mkRow (token j)) prices)"
    using ps by (auto simp: handler_def)
  with t1 show ?thesis by (simp add: insertedRows_def)
qed

lemma ex_first_run:
  "handler None (exJob False)
     [exPoint 1687392000 2, exPoint 1687478400 3, exPoint 1687564800 4] [exRow 1687305600 1] =
   (Written 0 3,
    [exRow 1687305600 1, exRow 1687392000 2, exRow 1687478400 3, exRow 1687564800 4])"
  by (simp add: eval_defs)

theorem replay_inserts_nothing_witness:
  "\<not> forceRefresh (exJob False) \<and>
   fst (handler None (exJob False)
     [exPoint 1687392000 2, exPoint 1687478400 3, exPoint 1687564800 4] [exRow 1687305600 1]) =
     Written 0 3 \<and>
   snd (handler None (exJob False)
     [exPoint 1687392000 2, exPoint 1687478400 3, exPoint 1687564800 4]
     [exRow 1687305600 1, exRow 1687392000 2, exRow 1687478400 3, exRow 1687564800 4]) =
     [exRow 1687305600 1, exRow 1687392000 2, exRow 1687478400 3, exRow 1687564800 4] \<and>
   insertedRows (fst (handler None (exJob False)
     [exPoint 1687392000 2, exPoint 1687478400 3, exPoint 1687564800 4]
     [exRow 1687305600 1, exRow 1687392000 2, exRow 1687478400 3, exRow 1687564800 4])) = 0"
proof -
  have f: "\<not> forceRefresh (exJob False)" by (simp add: exJob_def)
  from replay_inserts_nothing [OF f, of None
      "[exPoint 1687392000 2, exPoint 1687478400 3, exPoint 1687564800 4]" "[exRow 1687305600 1]"] f
  show ?thesis by (simp add: ex_first_run)
qed

subsection \<open>Rows of a token\<close>

lemma rowsOf_append: "rowsOf tok (a @ b) = rowsOf tok a @ rowsOf tok b"
  by (simp add: rowsOf_def)

lemma rowsOf_othersOf: "rowsOf tok (othersOf tok tbl) = []"
  by (induction tbl) (auto simp: rowsOf_def othersOf_def)

lemma rowsOf_mkRow: "rowsOf tok (map (mkRow tok) ps) = map (mkRow tok) ps"
  by (induction ps) (auto simp: rowsOf_def mkRow_def)

lemma rowsOf_mkRow_other: "tok' \<noteq> tok \<Longrightarrow> rowsOf tok (map (mkRow tok') ps) = []"
  by (induction ps) (auto simp: rowsOf_def mkRow_def)

lemma othersOf_append: "othersOf tok (a @ b) = othersOf tok a @ othersOf tok b"
  by (simp add: othersOf_def)

lemma othersOf_idem: "othersOf tok (othersOf tok tbl) = othersOf tok tbl"
  by (simp add: othersOf_def)

lemma othersOf_mkRow: "othersOf tok (map (mkRow tok) ps) = []"
  by (induction ps) (auto simp: othersOf_def mkRow_def)


lemma distinct_keys_mkRow:
  "distinct (map keyOf (map (mkRow tok) ps)) \<longleftrightarrow> distinct (map timestamp ps)"
proof -
  have "map keyOf (map (mkRow tok) ps) = map (\<lambda>t. (tok, t * 1000)) (map timestamp ps)"
    by (simp add: keyOf_def mkRow_def)
  moreover have "inj (\<lambda>t::int. (tok, t * 1000))" by (auto simp: inj_on_def)
  then have "inj_on (\<lambda>t::int. (tok, t * 1000)) (set (map timestamp ps))"
    by (rule inj_on_subset) simp
  ultimately show ?thesis by (simp only: distinct_map) simp
qed

subsection \<open>Refreshing\<close>




text \<open>
  C2, as the claim states it, fails. The \<^verbatim>\<open>deleteMany\<close> and the
  \<^verbatim>\<open>createMany\<close> are two statements: after the first the token has no rows
  (first conjunct: the refreshing process stands before its insert, the table is empty),
  and when the appending invocation inserts in between, the refreshing one fails on the
  unique constraint, with the old row deleted and neither of its own two rows stored.
\<close>

theorem refresh_not_atomic_counterexample:
  "run None exRace [0, 0] (start exRace [exRow 1687305600 1]) =
     ([AtCreate 1, AtAggregate], []) \<and>
   run None exRace [0, 1, 0, 1, 0] (start exRace [exRow 1687305600 1]) =
     ([Done (Failed UniqueConstraint), Done (Written 0 1)], [exRow 1687392000 9]) \<and>
   rowsOf exToken [exRow 1687305600 1] \<noteq>
     rowsOf exToken (snd (run None exRace [0, 1, 0, 1, 0] (start exRace [exRow 1687305600 1]))) \<and>
   filter (\<lambda>r. r \<in> set (map (mkRow exToken) (snd (exRace ! 0))))
     (snd (run None exRace [0, 1, 0, 1, 0] (start exRace [exRow 1687305600 1]))) = []"
  by code_simp

text \<open>
  C2, amended. For a refreshing invocation run without interruption: a rejected batch
  leaves the table as it was; when the insert succeeds, the rows deleted are all the
  token's rows, the token's rows afterwards are exactly the batch, and the other tokens'
  rows are untouched. The delete is a statement of its own, after which the token has
  no rows.
\<close>

theorem refresh_replaces_rows:
  assumes "forceRefresh j" and "handler v j prices tbl = (out, tbl')"
  shows "(out = Rejected \<longrightarrow> tbl' = tbl) \<and>
         (\<forall>d c. out = Written d c \<longrightarrow>
            d = length (rowsOf (token j) tbl) \<and> c = length prices \<and>
            rowsOf (token j) tbl' = map (mkRow (token j)) prices \<and>
            othersOf (token j) tbl' = othersOf (token j) tbl) \<and>
         step v (j, prices) AtDelete tbl =
           (AtCreate (length (rowsOf (token j) tbl)), othersOf (token j) tbl)"
proof -
  have "rowsOf (token j) tbl' = map (mkRow (token j)) prices \<and>
        othersOf (token j) tbl' = othersOf (token j) tbl \<and>
        d = length (rowsOf (token j) tbl) \<and> c = length prices"
    if "out = Written d c" for d c
  proof -
    from that assms have "tbl' = othersOf (token j) tbl @ map (mkRow (token j)) prices
        \<and> d = length (rowsOf (token j) tbl) \<and> c = length prices"
      by (auto simp: handler_def deleteMany_def split: list.splits if_splits sum.splits prod.splits
          dest: createMany_Inr)
    then show ?thesis
      by (simp add: rowsOf_append rowsOf_othersOf rowsOf_mkRow othersOf_append
          othersOf_idem othersOf_mkRow)
  qed
  moreover have "out = Rejected \<longrightarrow> tbl' = tbl"
    using assms
    by (auto simp: handler_def deleteMany_def split: list.splits if_splits sum.splits prod.splits)
  ultimately show ?thesis by (simp add: deleteMany_def)
qed

lemma ex_refresh_run:
  "handler None (exJob True) [exPoint 1687392000 2, exPoint 1687478400 3]
       [exRow 1687219200 7, exRow 1687305600 1] =
     (Written 2 2, [exRow 1687392000 2, exRow 1687478400 3])"
  by code_simp

theorem refresh_replaces_rows_witness:
  "forceRefresh (exJob True) \<and>
   handler None (exJob True) [exPoint 1687392000 2, exPoint 1687478400 3]
       [exRow 1687219200 7, exRow 1687305600 1] =
     (Written 2 2, [exRow 1687392000 2, exRow 1687478400 3]) \<and>
   rowsOf (token (exJob True)) [exRow 1687392000 2, exRow 1687478400 3] =
     map (mkRow (token (exJob True))) [exPoint 1687392000 2, exPoint 1687478400 3] \<and>
   othersOf (token (exJob True)) [exRow 1687392000 2, exRow 1687478400 3] =
     othersOf (token (exJob True)) [exRow 1687219200 7, exRow 1687305600 1] \<and>
   step None (exJob True, [exPoint 1687392000 2, exPoint 1687478400 3]) AtDelete
       [exRow 1687219200 7, exRow 1687305600 1] =
     (AtCreate (length (rowsOf (token (exJob True)) [exRow 1687219200 7, exRow 1687305600 1])),
      othersOf (token (exJob True)) [exRow 1687219200 7, exRow 1687305600 1])"
proof -
  have f: "forceRefresh (exJob True)" by (simp add: exJob_def)
  from refresh_replaces_rows [OF f ex_refresh_run] f ex_refresh_run
  show ?thesis by simp
qed

subsection \<open>What the commit inserts\<close>

lemma create_whole_batch:
  assumes "conflicting (map (mkRow tok) prices) tbl = []" and "distinct (map timestamp prices)"
  shows "createMany (map (mkRow tok) prices) tbl =
           Inr (length prices, tbl @ map (mkRow tok) prices)"
  using assms distinct_keys_mkRow [of tok prices] by (simp add: createMany_def)

lemma create_all_or_nothing:
  "createMany data tbl = Inl UniqueConstraint \<or> createMany data tbl = Inr (length data, tbl @ data)"
  by (simp add: createMany_def)

text \<open>
  C4, as the claim states it, fails, in both of its parts. No truncation: with the row
  of 2023-06-21 stored and a batch of 2023-06-22 and 2023-06-24, the longest contiguous
  prefix is the first point alone, and the handler inserts both points. No fresh
  watermark: on a table that holds 2023-06-20, the first invocation of \<open>exStale\<close>
  validates its batch of 2023-06-21; before it inserts, the second invocation appends
  2023-06-21 and the third, refreshing, replaces the rows by 2023-06-22. The watermark
  is then 2023-06-22 and the acceptable date 2023-06-23, from which the batch has an
  empty prefix; the first invocation inserts its row of 2023-06-21 all the same.
\<close>

theorem commit_untruncated_counterexample:
  "spec_contiguousPrefix (calendarDay 1687392000) [exPoint 1687392000 2, exPoint 1687564800 4] =
     [exPoint 1687392000 2] \<and>
   handler None (exJob False) [exPoint 1687392000 2, exPoint 1687564800 4] [exRow 1687305600 1] =
     (Written 0 2, [exRow 1687305600 1, exRow 1687392000 2, exRow 1687564800 4]) \<and>
   snd (handler None (exJob False) [exPoint 1687392000 2, exPoint 1687564800 4]
         [exRow 1687305600 1]) \<noteq>
     [exRow 1687305600 1] @ map (mkRow exToken)
       (spec_contiguousPrefix (calendarDay 1687392000)
          [exPoint 1687392000 2, exPoint 1687564800 4]) \<and>
   run None exStale [0, 1, 1, 2, 2, 2] (start exStale [exRow 1687219200 1]) =
     ([AtCreate 0, Done (Written 0 1), Done (Written 2 1)], [exRow 1687392000 7]) \<and>
   aggregate_max exToken [exRow 1687392000 7] = Some 1687392000000 \<and>
   spec_contiguousPrefix (calendarDay (unixEpoch (addOneDay 1687392000000)))
     [exPoint 1687305600 5] = [] \<and>
   run None exStale [0, 1, 1, 2, 2, 2, 0] (start exStale [exRow 1687219200 1]) =
     ([Done (Written 0 1), Done (Written 0 1), Done (Written 2 1)],
      [exRow 1687392000 7, exRow 1687305600 5])"
  by code_simp

text \<open>
  C4, amended. The commit neither reads the watermark again nor truncates. A handler
  that ran to its end has appended one row for every element of the fetched batch, in
  order; and once the validation has passed it does so whenever none of the batch's
  (token, timestamp) pairs is stored and the batch has no timestamp twice. The process
  at its \<^verbatim>\<open>createMany\<close> does the same on whatever the table is by then, with no
  regard to the watermark of that table: it appends the whole batch when no pair
  collides, and in every case leaves either the table as it was or the table with the
  whole batch appended, never a part of the batch.
\<close>

theorem commit_inserts_whole_batch:
  "(handler v j prices tbl = (Written d c, tbl') \<longrightarrow>
      c = length prices \<and>
      tbl' = (if forceRefresh j then othersOf (token j) tbl else tbl) @ map (mkRow (token j)) prices) \<and>
   (prices = p # ps \<and> Some (timestamp p) = nextEpoch v (aggregate_max (token j) tbl) \<and>
    conflicting (map (mkRow (token j)) prices)
      (if forceRefresh j then othersOf (token j) tbl else tbl) = [] \<and>
    distinct (map timestamp prices) \<longrightarrow>
      handler v j prices tbl =
        (Written (if forceRefresh j then length (rowsOf (token j) tbl) else 0) (length prices),
         (if forceRefresh j then othersOf (token j) tbl else tbl) @ map (mkRow (token j)) prices)) \<and>
   (step v (j, prices) (AtCreate n) tblNow = (Done (Written n' c'), tbl'') \<longrightarrow>
      c' = length prices \<and> tbl'' = tblNow @ map (mkRow (token j)) prices) \<and>
   (conflicting (map (mkRow (token j)) prices) tblNow = [] \<and> distinct (map timestamp prices) \<longrightarrow>
      step v (j, prices) (AtCreate n) tblNow =
        (Done (Written n (length prices)), tblNow @ map (mkRow (token j)) prices)) \<and>
   (snd (step v (j, prices) (AtCreate n) tblNow) = tblNow \<or>
    snd (step v (j, prices) (AtCreate n) tblNow) = tblNow @ map (mkRow (token j)) prices)"
proof -
  let ?rows = "map (mkRow (token j)) prices"
  let ?t1 = "if forceRefresh j then othersOf (token j) tbl else tbl"
  have a: "handler v j prices tbl = (Written d c, tbl') \<longrightarrow>
      c = length prices \<and> tbl' = ?t1 @ ?rows"
    by (auto simp: handler_def deleteMany_def split: list.splits if_splits sum.splits prod.splits
        dest: createMany_Inr)
  have b: "handler v j prices tbl =
        (Written (if forceRefresh j then length (rowsOf (token j) tbl) else 0) (length prices),
         ?t1 @ ?rows)"
    if "prices = p # ps" and "Some (timestamp p) = nextEpoch v (aggregate_max (token j) tbl)"
      and "conflicting ?rows ?t1 = []" and "distinct (map timestamp prices)"
  proof -
    from create_whole_batch [OF that(3,4)]
    have "createMany ?rows ?t1 = Inr (length prices, ?t1 @ ?rows)" .
    with that(1,2) show ?thesis
      by (cases "forceRefresh j") (simp_all add: handler_def deleteMany_def)
  qed
  have c: "step v (j, prices) (AtCreate n) tblNow = (Done (Written n' c'), tbl'') \<longrightarrow>
      c' = length prices \<and> tbl'' = tblNow @ ?rows"
    by (auto split: sum.splits dest: createMany_Inr)
  have d: "conflicting ?rows tblNow = [] \<and> distinct (map timestamp prices) \<longrightarrow>
      step v (j, prices) (AtCreate n) tblNow = (Done (Written n (length prices)), tblNow @ ?rows)"
    using create_whole_batch [of "token j" prices tblNow] by simp
  have e: "snd (step v (j, prices) (AtCreate n) tblNow) = tblNow \<or>
      snd (step v (j, prices) (AtCreate n) tblNow) = tblNow @ ?rows"
    using create_all_or_nothing [of ?rows tblNow] by auto
  from a b c d e show ?thesis by blast
qed

text \<open>
  The witness is the first invocation of \<open>exStale\<close>: validated and run on the table
  that holds 2023-06-20, and at its insert on the table that holds 2023-06-22, where its
  batch would no longer pass the validation.
\<close>

theorem commit_inserts_whole_batch_witness:
  "handler None (exJob False) [exPoint 1687305600 5] [exRow 1687219200 1] =
     (Written 0 1, [exRow 1687219200 1, exRow 1687305600 5]) \<and>
   Some (timestamp (exPoint 1687305600 5)) =
     nextEpoch None (aggregate_max (token (exJob False)) [exRow 1687219200 1]) \<and>
   Some (timestamp (exPoint 1687305600 5)) \<noteq>
     nextEpoch None (aggregate_max (token (exJob False)) [exRow 1687392000 7]) \<and>
   conflicting (map (mkRow (token (exJob False))) [exPoint 1687305600 5]) [exRow 1687392000 7] = [] \<and>
   distinct (map timestamp [exPoint 1687305600 5]) \<and>
   step None (exJob False, [exPoint 1687305600 5]) (AtCreate 0) [exRow 1687392000 7] =
     (Done (Written 0 1), [exRow 1687392000 7, exRow 1687305600 5])"
proof -
  have h: "handler None (exJob False) [exPoint 1687305600 5] [exRow 1687219200 1] =
     (Written 0 1, [exRow 1687219200 1, exRow 1687305600 5])"
    by code_simp
  have val: "Some (timestamp (exPoint 1687305600 5)) =
     nextEpoch None (aggregate_max (token (exJob False)) [exRow 1687219200 1])"
    by code_simp
  have stale: "Some (timestamp (exPoint 1687305600 5)) \<noteq>
     nextEpoch None (aggregate_max (token (exJob False)) [exRow 1687392000 7])"
    by code_simp
  have c1: "conflicting (map (mkRow (token (exJob False))) [exPoint 1687305600 5])
      (if forceRefresh (exJob False) then othersOf (token (exJob False)) [exRow 1687219200 1]
       else [exRow 1687219200 1]) = []"
    by code_simp
  have c2: "conflicting (map (mkRow (token (exJob False))) [exPoint 1687305600 5])
      [exRow 1687392000 7] = []"
    by code_simp
  have dt: "distinct (map timestamp [exPoint 1687305600 5])" by simp
  have st: "step None (exJob False, [exPoint 1687305600 5]) (AtCreate 0) [exRow 1687392000 7] =
     (Done (Written 0 1), [exRow 1687392000 7, exRow 1687305600 5])"
    by code_simp
  from commit_inserts_whole_batch [where v = None and j = "exJob False"
      and prices = "[exPoint 1687305600 5]" and p = "exPoint 1687305600 5" and ps = "[]"
      and tbl = "[exRow 1687219200 1]" and d = 0 and c = 1
      and tbl' = "[exRow 1687219200 1, exRow 1687305600 5]"
      and tblNow = "[exRow 1687392000 7]" and n = 0 and n' = 0 and c' = 1
      and tbl'' = "[exRow 1687392000 7, exRow 1687305600 5]"]
    h val stale c1 c2 dt st
  show ?thesis by simp
qed

subsection \<open>A token without rows\<close>

text \<open>
  C6. With no row stored the handler compares the first timestamp with
  \<^verbatim>\<open>unixEpoch(addOneDay(null))\<close>, one value whatever the batch is. So of two
  batches starting on different days, at least one is rejected and nothing is written,
  whatever the helpers yield on \<^verbatim>\<open>null\<close>.
\<close>

theorem absent_watermark_rejects:
  "handler v (exJob f) [exPoint 1687392000 2] [] = (Rejected, []) \<or>
   handler v (exJob f) [exPoint 1687478400 2] [] = (Rejected, [])"
  by (cases v) (simp_all add: handler_def aggregate_max_def rowsOf_def nextEpoch_def exPoint_def)

subsection \<open>Two invocations at once\<close>

lemma script_never_fails_unique: "fst (script v j prices tbl) \<noteq> Failed UniqueConstraint"
  by (auto simp: script_def Let_def split: list.splits prod.splits)

text \<open>
  C1. Two invocations with the same batch both read the watermark before either
  inserts: both pass the validation, the first insert succeeds and the second throws on
  the unique constraint. The handler's \<^verbatim>\<open>createMany\<close> has no
  \<^verbatim>\<open>skipDuplicates\<close>; the top-level listing, which has it, never throws so
  (\<open>script_never_fails_unique\<close>).
\<close>

theorem concurrent_duplicate_insert_fails:
  "run None exTwo [0, 1, 0, 1] (start exTwo [exRow 1687305600 1]) =
     ([Done (Written 0 2), Done (Failed UniqueConstraint)],
      [exRow 1687305600 1, exRow 1687392000 2, exRow 1687478400 3])"
  by (simp add: exTwo_def start_def eval_defs)

subsection \<open>Contiguity\<close>

lemma consecutive_strict: "consecutive xs \<Longrightarrow> sorted_wrt (<) xs"
proof (induction xs rule: consecutive.induct)
  case (1 a b xs)
  from "1.prems" have c: "consecutive (b # xs)" and ab: "b = a + 1" by auto
  from "1.IH" [OF c] have "sorted_wrt (<) (b # xs)" .
  with ab show ?case by auto
qed simp_all

lemma consecutive_append:
  assumes "consecutive xs" and "consecutive ys"
    and "xs \<noteq> [] \<Longrightarrow> ys \<noteq> [] \<Longrightarrow> hd ys = last xs + 1"
  shows "consecutive (xs @ ys)"
  using assms
proof (induction xs rule: consecutive.induct)
  case (1 a b xs)
  from "1.prems"(1) have c: "consecutive (b # xs)" and ab: "b = a + 1" by auto
  have "consecutive ((b # xs) @ ys)"
    using "1.prems"(2,3) by (intro "1.IH" c) simp_all
  with ab show ?case by simp
qed (cases ys; simp)+

lemma sorted_le_last: "sorted xs \<Longrightarrow> x \<in> set xs \<Longrightarrow> x \<le> last xs"
  by (induction xs) auto

lemma sort_append_above:
  assumes "sorted bs" and "\<forall>d \<in> set ds. \<forall>b \<in> set bs. d \<le> b"
  shows "sort (ds @ bs) = sort ds @ bs"
  using assms by (intro properties_for_sort) (auto simp: sorted_append)

lemma last_sort_Max:
  assumes "ds \<noteq> []"
  shows "last (sort ds) = Max (set ds)"
proof -
  from assms have ne: "sort ds \<noteq> []" by (metis length_0_conv length_sort)
  then have "last (sort ds) \<in> set ds" using last_in_set by fastforce
  moreover have "\<forall>x \<in> set ds. x \<le> last (sort ds)"
    using sorted_le_last [of "sort ds"] by simp
  ultimately show ?thesis by (intro Max_eqI [symmetric]) auto
qed

lemma dayOfDate_epoch: "dayOfDate (e * 1000) = calendarDay e"
  by (simp add: dayOfDate_def calendarDay_def)

lemma dayOfDate_next: "calendarDay (unixEpoch (addOneDay m)) = dayOfDate m + 1"
proof -
  have "(m + 86400000) div 1000 div 86400 = (m + 86400000) div (1000 * 86400)"
    by (rule zdiv_zmult2_eq [symmetric]) simp
  then show ?thesis
    by (simp add: dayOfDate_def calendarDay_def unixEpoch_def addOneDay_def)
qed

lemma dayOfDate_mono: "mono dayOfDate"
  by (auto simp: mono_def dayOfDate_def intro: zdiv_mono1)

lemma daysOf_append: "daysOf tok (a @ b) = daysOf tok a @ daysOf tok b"
  by (simp add: daysOf_def rowsOf_append)

lemma daysOf_mkRow:
  "daysOf tok (map (mkRow tok) ps) = map (\<lambda>p. calendarDay (timestamp p)) ps"
  by (simp add: daysOf_def rowsOf_mkRow) (simp add: mkRow_def dayOfDate_epoch)

lemma daysOf_mkRow_other: "tok' \<noteq> tok \<Longrightarrow> daysOf tok (map (mkRow tok') ps) = []"
  by (simp add: daysOf_def rowsOf_mkRow_other)

lemma daysOf_othersOf: "daysOf tok (othersOf tok tbl) = []"
  by (simp add: daysOf_def rowsOf_othersOf)

lemma rowsOf_othersOf_other: "tok' \<noteq> tok \<Longrightarrow> rowsOf tok (othersOf tok' tbl) = rowsOf tok tbl"
  by (induction tbl) (auto simp: rowsOf_def othersOf_def)

lemma daysOf_othersOf_other: "tok' \<noteq> tok \<Longrightarrow> daysOf tok (othersOf tok' tbl) = daysOf tok tbl"
  by (simp add: daysOf_def rowsOf_othersOf_other)

text \<open>The day of the watermark is the latest stored day.\<close>

lemma watermark_day:
  assumes "aggregate_max tok tbl = Some m"
  shows "daysOf tok tbl \<noteq> [] \<and> Max (set (daysOf tok tbl)) = dayOfDate m"
proof -
  from assms have ne: "rowsOf tok tbl \<noteq> []" by (auto simp: aggregate_max_def)
  with assms aggregate_max_Max [OF ne]
  have m: "m = Max (set (map row_timestamp (rowsOf tok tbl)))" by simp
  have "dayOfDate (Max (set (map row_timestamp (rowsOf tok tbl)))) =
        Max (dayOfDate ` set (map row_timestamp (rowsOf tok tbl)))"
    using ne by (intro mono_Max_commute dayOfDate_mono) auto
  moreover have "dayOfDate ` set (map row_timestamp (rowsOf tok tbl)) = set (daysOf tok tbl)"
    by (auto simp: daysOf_def)
  ultimately show ?thesis using ne m by (simp add: daysOf_def)
qed

text \<open>Appending a run of days that starts right after the latest stored day.\<close>

lemma contiguous_extend:
  assumes "consecutive (sort ds)" and "consecutive bs"
    and "ds \<noteq> [] \<Longrightarrow> bs \<noteq> [] \<Longrightarrow> hd bs = Max (set ds) + 1"
  shows "consecutive (sort (ds @ bs))"
proof (cases "ds = [] \<or> bs = []")
  case True
  then show ?thesis
  proof
    assume "ds = []"
    with assms(2) consecutive_strict [OF assms(2)] show ?thesis
      by (simp add: strict_sorted_iff sorted_sort_id)
  next
    assume "bs = []"
    with assms(1) show ?thesis by simp
  qed
next
  case False
  then have ne: "ds \<noteq> []" "bs \<noteq> []" by simp_all
  from consecutive_strict [OF assms(2)] have sb: "sorted bs" "sorted_wrt (<) bs"
    by (simp_all add: strict_sorted_iff)
  have hd_le: "\<forall>b \<in> set bs. hd bs \<le> b"
    using sb(1) ne(2) by (cases bs) auto
  have above: "\<forall>d \<in> set ds. \<forall>b \<in> set bs. d \<le> b"
  proof (intro ballI)
    fix d b assume "d \<in> set ds" and "b \<in> set bs"
    then have "d \<le> Max (set ds)" and "hd bs \<le> b" using hd_le by simp_all
    with assms(3) [OF ne] show "d \<le> b" by simp
  qed
  have s: "sort (ds @ bs) = sort ds @ bs"
    by (rule sort_append_above [OF sb(1) above])
  have "hd bs = last (sort ds) + 1"
    using assms(3) [OF ne] last_sort_Max [OF ne(1)] by simp
  with assms(1,2) show ?thesis
    unfolding s by (intro consecutive_append) simp_all
qed


lemma handler_table_cases:
  "snd (handler v j ps tbl) = tbl \<or>
   (forceRefresh j \<and> snd (handler v j ps tbl) = othersOf (token j) tbl) \<or>
   (\<exists>p qs. ps = p # qs \<and> Some (timestamp p) = nextEpoch v (aggregate_max (token j) tbl) \<and>
      snd (handler v j ps tbl) =
        (if forceRefresh j then othersOf (token j) tbl else tbl) @ map (mkRow (token j)) ps)"
  by (cases ps)
    (auto simp: handler_def deleteMany_def split: sum.splits prod.splits dest: createMany_Inr)

lemma handler_contiguous:
  assumes "contiguous tok tbl" and "dailyRun ps"
  shows "contiguous tok (snd (handler v j ps tbl))"
proof -
  let ?bs = "map (\<lambda>p. calendarDay (timestamp p)) ps"
  from assms(2) have run: "consecutive ?bs" by (simp add: dailyRun_def)
  consider (same) "snd (handler v j ps tbl) = tbl"
    | (purged) "forceRefresh j" "snd (handler v j ps tbl) = othersOf (token j) tbl"
    | (written) p qs where "ps = p # qs"
        "Some (timestamp p) = nextEpoch v (aggregate_max (token j) tbl)"
        "snd (handler v j ps tbl) =
          (if forceRefresh j then othersOf (token j) tbl else tbl) @ map (mkRow (token j)) ps"
    using handler_table_cases [of v j ps tbl] by blast
  then show ?thesis
  proof cases
    case same
    with assms(1) show ?thesis by simp
  next
    case purged
    show ?thesis
    proof (cases "token j = tok")
      case True
      with purged show ?thesis by (simp add: contiguous_def daysOf_othersOf)
    next
      case False
      with purged assms(1) show ?thesis by (simp add: contiguous_def daysOf_othersOf_other)
    qed
  next
    case written
    show ?thesis
    proof (cases "token j = tok")
      case False
      with written(3) assms(1) show ?thesis
        by (simp add: contiguous_def daysOf_append daysOf_mkRow_other daysOf_othersOf_other)
    next
      case True
      show ?thesis
      proof (cases "forceRefresh j")
        case f: True
        have "consecutive (sort ([] @ ?bs))"
          by (rule contiguous_extend) (simp_all add: run)
        with f True written(3) show ?thesis
          by (simp add: contiguous_def daysOf_append daysOf_othersOf daysOf_mkRow)
      next
        case f: False
        have "consecutive (sort (daysOf tok tbl @ ?bs))"
        proof (rule contiguous_extend)
          show "consecutive (sort (daysOf tok tbl))"
            using assms(1) by (simp add: contiguous_def)
          show "consecutive ?bs" by (rule run)
          assume ne: "daysOf tok tbl \<noteq> []"
          then have "rowsOf tok tbl \<noteq> []" by (simp add: daysOf_def)
          then obtain m where m: "aggregate_max tok tbl = Some m"
            using aggregate_max_None [of tok tbl] by (cases "aggregate_max tok tbl") auto
          with written(2) True have "timestamp p = unixEpoch (addOneDay m)"
            by (simp add: nextEpoch_def)
          then have "calendarDay (timestamp p) = dayOfDate m + 1"
            by (simp add: dayOfDate_next)
          with watermark_day [OF m] written(1)
          show "hd ?bs = Max (set (daysOf tok tbl)) + 1" by simp
        qed
        with f True written(3) show ?thesis
          by (simp add: contiguous_def daysOf_append daysOf_mkRow)
      qed
    qed
  qed
qed

lemma sequential_contiguous:
  assumes "contiguous tok tbl" and "\<forall>inv \<in> set invs. dailyRun (snd inv)"
  shows "contiguous tok (sequential v invs tbl)"
  using assms
proof (induction invs arbitrary: tbl)
  case Nil
  then show ?case by simp
next
  case (Cons inv invs)
  obtain j ps where inv: "inv = (j, ps)" by (cases inv)
  with Cons.prems have "contiguous tok (snd (handler v j ps tbl))"
    by (intro handler_contiguous) simp_all
  with Cons inv show ?case by simp
qed

lemma contiguous_distinct_keys:
  assumes "contiguous tok tbl"
  shows "distinct (map keyOf (rowsOf tok tbl))"
proof -
  from assms have "sorted_wrt (<) (sort (daysOf tok tbl))"
    unfolding contiguous_def by (rule consecutive_strict)
  then have "distinct (sort (daysOf tok tbl))" by (simp add: strict_sorted_iff)
  then have "distinct (map (\<lambda>r. dayOfDate (row_timestamp r)) (rowsOf tok tbl))"
    by (simp add: daysOf_def)
  then have "distinct (map (\<lambda>k. dayOfDate (snd k)) (map keyOf (rowsOf tok tbl)))"
    by (simp add: keyOf_def comp_def)
  then show ?thesis by (rule distinct_map [THEN iffD1, THEN conjunct1])
qed

text \<open>
  C3, amended. From a table in which a token's days form a contiguous run (or the token
  has no rows), after any sequence of invocations run one after another, each with a
  fetched batch that is itself a run of consecutive days, the token's days are again a
  contiguous run and no (token, timestamp) pair is stored twice.
\<close>

theorem contiguity_preserved:
  assumes "contiguous tok tbl" and "\<forall>inv \<in> set invs. dailyRun (snd inv)"
  shows "contiguous tok (sequential v invs tbl) \<and>
         distinct (map keyOf (rowsOf tok (sequential v invs tbl)))"
  using sequential_contiguous [OF assms] contiguous_distinct_keys by blast

text \<open>
  C3, as the claim states it, fails. The handler checks the first point of the batch
  only: with 2023-06-21 stored, the batch of 2023-06-22 and 2023-06-24 passes validation,
  is inserted whole, and the stored days then have a gap at 2023-06-23.
\<close>

theorem gap_in_batch_counterexample:
  "contiguous exToken [exRow 1687305600 1] \<and>
   handler None (exJob False) [exPoint 1687392000 2, exPoint 1687564800 4] [exRow 1687305600 1] =
     (Written 0 2, [exRow 1687305600 1, exRow 1687392000 2, exRow 1687564800 4]) \<and>
   \<not> contiguous exToken [exRow 1687305600 1, exRow 1687392000 2, exRow 1687564800 4]"
  by code_simp

theorem contiguity_preserved_witness:
  "contiguous exToken [exRow 1687305600 1] \<and>
   dailyRun [exPoint 1687392000 2, exPoint 1687478400 3] \<and>
   dailyRun [exPoint 1687564800 4] \<and>
   sequential None [(exJob False, [exPoint 1687392000 2, exPoint 1687478400 3]),
        (exJob False, [exPoint 1687564800 4])] [exRow 1687305600 1] =
     [exRow 1687305600 1, exRow 1687392000 2, exRow 1687478400 3, exRow 1687564800 4] \<and>
   contiguous exToken
     [exRow 1687305600 1, exRow 1687392000 2, exRow 1687478400 3, exRow 1687564800 4]"
proof -
  have c: "contiguous exToken [exRow 1687305600 1]" by code_simp
  have d1: "dailyRun [exPoint 1687392000 2, exPoint 1687478400 3]" by code_simp
  have d2: "dailyRun [exPoint 1687564800 4]" by code_simp
  have s: "sequential None [(exJob False, [exPoint 1687392000 2, exPoint 1687478400 3]),
        (exJob False, [exPoint 1687564800 4])] [exRow 1687305600 1] =
     [exRow 1687305600 1, exRow 1687392000 2, exRow 1687478400 3, exRow 1687564800 4]"
    by code_simp
  have "\<forall>inv \<in> set [(exJob False, [exPoint 1687392000 2, exPoint 1687478400 3]),
        (exJob False, [exPoint 1687564800 4])]. dailyRun (snd inv)"
    using d1 d2 by simp
  from contiguity_preserved [OF c this, of None] c d1 d2 s
  show ?thesis by simp
qed

subsection \<open>Interleaved invocations that only append\<close>

lemma sequential_append:
  "sequential v (xs @ [(j, ps)]) t = snd (handler v j ps (sequential v xs t))"
  by (induction xs arbitrary: t) auto

lemma doneSet_update_done:
  "i < length pcs \<Longrightarrow> isDone p \<Longrightarrow> doneSet (pcs[i := p]) = insert i (doneSet pcs)"
  by (auto simp: doneSet_def nth_list_update)

lemma doneSet_update_pending:
  "i < length pcs \<Longrightarrow> \<not> isDone p \<Longrightarrow> \<not> isDone (pcs ! i) \<Longrightarrow> doneSet (pcs[i := p]) = doneSet pcs"
  by (auto simp: doneSet_def nth_list_update)

lemma aggregate_max_append_other:
  "tok' \<noteq> tok \<Longrightarrow> aggregate_max tok (tbl @ map (mkRow tok') ps) = aggregate_max tok tbl"
  by (simp add: aggregate_max_def rowsOf_append rowsOf_mkRow_other)

text \<open>The aggregate of a process that is not refreshing.\<close>

lemma step_aggregate:
  assumes "\<not> forceRefresh j"
  shows "(step v (j, ps) AtAggregate tbl = (AtCreate 0, tbl) \<and> pending_ok v (j, ps) tbl) \<or>
         (\<exists>out. step v (j, ps) AtAggregate tbl = (Done out, tbl) \<and>
            snd (handler v j ps tbl) = tbl)"
  using assms by (cases ps) (auto simp: pending_ok_def handler_def)

lemma create_fails_handler:
  assumes "\<not> forceRefresh j" and "createMany (map (mkRow (token j)) ps) tbl = Inl e"
  shows "snd (handler v j ps tbl) = tbl"
  using assms by (cases ps) (auto simp: handler_def)

lemma first_key_conflicts:
  assumes "(tok, timestamp p * 1000) \<in> set (map keyOf tbl)"
  shows "createMany (map (mkRow tok) (p # qs)) tbl = Inl UniqueConstraint"
proof -
  have "keyOf (mkRow tok p) = (tok, timestamp p * 1000)" by (simp add: keyOf_def mkRow_def)
  with assms have "mkRow tok p \<in> set (conflicting (map (mkRow tok) (p # qs)) tbl)"
    by (simp add: conflicting_def)
  then have "conflicting (map (mkRow tok) (p # qs)) tbl \<noteq> []" by auto
  then show ?thesis by (simp add: createMany_def)
qed

lemma create_succeeds_validated:
  assumes "pending_ok v (j, ps) tbl" and "createMany (map (mkRow (token j)) ps) tbl = Inr (c, t)"
  shows "\<exists>p qs. ps = p # qs \<and> Some (timestamp p) = nextEpoch v (aggregate_max (token j) tbl)"
proof -
  from assms(1) obtain p qs where ps: "ps = p # qs" by (cases ps) (auto simp: pending_ok_def)
  have "(token j, timestamp p * 1000) \<notin> set (map keyOf tbl)"
    using first_key_conflicts [of "token j" p tbl qs] assms(2) ps by auto
  with assms(1) ps show ?thesis by (auto simp: pending_ok_def)
qed

lemma create_succeeds_handler:
  assumes "\<not> forceRefresh j" and "pending_ok v (j, ps) tbl"
    and "createMany (map (mkRow (token j)) ps) tbl = Inr (c, t)"
  shows "snd (handler v j ps tbl) = t"
  using create_succeeds_validated [OF assms(2,3)] assms(1,3) by (auto simp: handler_def)

lemma pending_ok_after_create:
  assumes "pending_ok v iv' tbl" and "pending_ok v (j, ps) tbl"
    and "createMany (map (mkRow (token j)) ps) tbl = Inr (c, t)"
  shows "pending_ok v iv' t"
proof -
  from create_succeeds_validated [OF assms(2,3)] obtain p qs
    where ps: "ps = p # qs" and val: "Some (timestamp p) = nextEpoch v (aggregate_max (token j) tbl)"
    by blast
  from assms(3) have t: "t = tbl @ map (mkRow (token j)) ps" by (simp add: createMany_Inr)
  obtain j' ps' where iv': "iv' = (j', ps')" by (cases iv')
  with assms(1) obtain p' qs' where ps': "ps' = p' # qs'"
    by (cases ps') (auto simp: pending_ok_def)
  show ?thesis
  proof (cases "(token j', timestamp p' * 1000) \<in> set (map keyOf tbl)")
    case True
    with iv' ps' t show ?thesis by (simp add: pending_ok_def)
  next
    case False
    with assms(1) iv' ps'
    have v': "Some (timestamp p') = nextEpoch v (aggregate_max (token j') tbl)"
      by (simp add: pending_ok_def)
    show ?thesis
    proof (cases "token j' = token j")
      case True
      with v' val have "Some (timestamp p') = Some (timestamp p)" by (simp only:)
      then have "timestamp p' = timestamp p" by simp
      with True ps have "(token j', timestamp p' * 1000) \<in> set (map keyOf (map (mkRow (token j)) ps))"
        by (simp add: keyOf_def mkRow_def)
      with iv' ps' t show ?thesis by (simp add: pending_ok_def)
    next
      case False
      then have "aggregate_max (token j') t = aggregate_max (token j') tbl"
        unfolding t by (intro aggregate_max_append_other) simp
      with v' iv' ps' show ?thesis by (simp add: pending_ok_def)
    qed
  qed
qed


lemma serial_inv_start: "serial_inv v invs tbl (start invs tbl)"
proof -
  have "\<exists>order. distinct order \<and> set order = doneSet (replicate (length invs) AtAggregate) \<and>
      sequential v (map (nth invs) order) tbl = tbl"
    by (rule exI [of _ "[]"]) (simp add: doneSet_def isDone_def)
  then show ?thesis by (simp add: serial_inv_def start_def)
qed

lemma serial_inv_step:
  assumes nf: "\<forall>w \<in> set invs. \<not> forceRefresh (fst w)"
    and I: "serial_inv v invs tbl0 (pcs, tbl)"
    and i: "i < length invs"
    and st: "step v (invs ! i) (pcs ! i) tbl = (pc', tbl')"
  shows "serial_inv v invs tbl0 (pcs[i := pc'], tbl')"
proof -
  obtain j ps where w: "invs ! i = (j, ps)" by (cases "invs ! i")
  from nf i have "\<not> forceRefresh (fst (invs ! i))" by simp
  with w have nfj: "\<not> forceRefresh j" by simp
  from I have len: "length pcs = length invs"
    and nodel: "\<forall>k < length invs. pcs ! k \<noteq> AtDelete"
    and pend: "\<forall>k < length invs. \<forall>n. pcs ! k = AtCreate n \<longrightarrow> pending_ok v (invs ! k) tbl"
    by (simp_all add: serial_inv_def)
  from I obtain order where ord: "distinct order" "set order = doneSet pcs"
      "sequential v (map (nth invs) order) tbl0 = tbl"
    by (auto simp: serial_inv_def)
  have finish: "serial_inv v invs tbl0 (pcs[i := Done out], t)"
    if nd: "\<not> isDone (pcs ! i)" and h: "snd (handler v j ps tbl) = t"
      and others: "\<forall>k < length invs. \<forall>n. pcs ! k = AtCreate n \<longrightarrow> k \<noteq> i \<longrightarrow>
          pending_ok v (invs ! k) t" for out t
  proof -
    from ord(2) nd have "i \<notin> set order" by (simp add: doneSet_def)
    with ord(1) have d: "distinct (order @ [i])" by simp
    have s: "set (order @ [i]) = doneSet (pcs[i := Done out])"
      using ord(2) i len by (simp add: doneSet_update_done isDone_def)
    have q: "sequential v (map (nth invs) (order @ [i])) tbl0 = t"
      using ord(3) h w by (simp add: sequential_append)
    have a: "\<forall>k < length invs. pcs[i := Done out] ! k \<noteq> AtDelete"
      using nodel len i by (simp add: nth_list_update)
    have b: "\<forall>k < length invs. \<forall>n. pcs[i := Done out] ! k = AtCreate n \<longrightarrow>
        pending_ok v (invs ! k) t"
      using others len i by (simp add: nth_list_update)
    from d s q have "\<exists>order. distinct order \<and> set order = doneSet (pcs[i := Done out]) \<and>
        sequential v (map (nth invs) order) tbl0 = t" by blast
    with a b len show ?thesis by (simp add: serial_inv_def)
  qed
  show ?thesis
  proof (cases "pcs ! i")
    case AtAggregate
    then have nd: "\<not> isDone (pcs ! i)" by (simp add: isDone_def)
    from step_aggregate [OF nfj, of v ps tbl]
    show ?thesis
    proof
      assume A: "step v (j, ps) AtAggregate tbl = (AtCreate 0, tbl) \<and> pending_ok v (j, ps) tbl"
      with st w AtAggregate have e: "pc' = AtCreate 0" "tbl' = tbl" by simp_all
      have s: "doneSet (pcs[i := AtCreate 0]) = doneSet pcs"
        using i len nd by (simp add: doneSet_update_pending isDone_def)
      have a: "\<forall>k < length invs. pcs[i := AtCreate 0] ! k \<noteq> AtDelete"
        using nodel len i by (simp add: nth_list_update)
      have b: "\<forall>k < length invs. \<forall>n. pcs[i := AtCreate 0] ! k = AtCreate n \<longrightarrow>
          pending_ok v (invs ! k) tbl"
        using pend len A w i by (simp add: nth_list_update)
      from ord s have "\<exists>order. distinct order \<and> set order = doneSet (pcs[i := AtCreate 0]) \<and>
          sequential v (map (nth invs) order) tbl0 = tbl" by auto
      with a b len e show ?thesis by (simp add: serial_inv_def)
    next
      assume "\<exists>out. step v (j, ps) AtAggregate tbl = (Done out, tbl) \<and>
          snd (handler v j ps tbl) = tbl"
      then obtain out where B: "step v (j, ps) AtAggregate tbl = (Done out, tbl)"
          "snd (handler v j ps tbl) = tbl" by blast
      with st w AtAggregate have e: "pc' = Done out" "tbl' = tbl" by simp_all
      from finish [OF nd B(2), of out] pend e show ?thesis by simp
    qed
  next
    case AtDelete
    with nodel i show ?thesis by simp
  next
    case (AtCreate n)
    then have nd: "\<not> isDone (pcs ! i)" by (simp add: isDone_def)
    from pend i AtCreate w have p: "pending_ok v (j, ps) tbl" by auto
    show ?thesis
    proof (cases "createMany (map (mkRow (token j)) ps) tbl")
      case (Inl e)
      with st w AtCreate have e: "pc' = Done (Failed e)" "tbl' = tbl" by simp_all
      from finish [OF nd create_fails_handler [OF nfj Inl], of "Failed e"] pend e
      show ?thesis by simp
    next
      case (Inr r)
      obtain c t where r: "r = (c, t)" by (cases r)
      with Inr st w AtCreate have e: "pc' = Done (Written n c)" "tbl' = t" by simp_all
      from Inr r have cm: "createMany (map (mkRow (token j)) ps) tbl = Inr (c, t)" by simp
      have others: "\<forall>k < length invs. \<forall>n. pcs ! k = AtCreate n \<longrightarrow> k \<noteq> i \<longrightarrow>
          pending_ok v (invs ! k) t"
        using pend pending_ok_after_create [OF _ p cm] by blast
      from finish [OF nd create_succeeds_handler [OF nfj p cm] others, of "Written n c"] e
      show ?thesis by simp
    qed
  next
    case (Done out)
    with st w have "pc' = pcs ! i" "tbl' = tbl" by simp_all
    with I show ?thesis by simp
  qed
qed

lemma serial_inv_run:
  assumes nf: "\<forall>w \<in> set invs. \<not> forceRefresh (fst w)"
    and I: "serial_inv v invs tbl0 c"
  shows "serial_inv v invs tbl0 (run v invs sched c)"
  using I
proof (induction sched arbitrary: c)
  case Nil
  then show ?case by simp
next
  case (Cons i sched)
  obtain pcs tbl where c: "c = (pcs, tbl)" by (cases c)
  show ?case
  proof (cases "i < length invs \<and> i < length pcs")
    case True
    obtain pc' tbl' where st: "step v (invs ! i) (pcs ! i) tbl = (pc', tbl')"
      by (cases "step v (invs ! i) (pcs ! i) tbl")
    from Cons.prems c True st have "serial_inv v invs tbl0 (pcs[i := pc'], tbl')"
      by (intro serial_inv_step [OF nf]) simp_all
    from Cons.IH [OF this] c True st show ?thesis by simp
  next
    case False
    then have "run v invs (i # sched) (pcs, tbl) = run v invs sched (pcs, tbl)"
      by (simp only: run.simps if_False)
    with Cons c show ?thesis by simp
  qed
qed

text \<open>
  C8, amended. For any invocations none of which refreshes, and any order in which
  their statements reach the database: when all have finished, the table is the one
  that running the same invocations one after another, in some order, produces. (An
  invocation whose insert threw in the interleaving is one that the validation rejects
  in that order; the tables agree.)
\<close>

theorem appending_invocations_serializable:
  assumes "\<forall>w \<in> set invs. \<not> forceRefresh (fst w)"
    and "run v invs sched (start invs tbl) = (pcs, tbl')"
    and "\<forall>p \<in> set pcs. isDone p"
  shows "\<exists>order. distinct order \<and> set order = {..<length invs} \<and>
           sequential v (map (nth invs) order) tbl = tbl'"
proof -
  from serial_inv_run [OF assms(1) serial_inv_start, of v tbl sched] assms(2)
  have I: "serial_inv v invs tbl (pcs, tbl')" by simp
  then have len: "length pcs = length invs" by (simp add: serial_inv_def)
  from assms(3) have "doneSet pcs = {..<length pcs}"
    by (auto simp: doneSet_def)
  with I len show ?thesis by (auto simp: serial_inv_def)
qed


theorem appending_invocations_serializable_witness:
  "run None exTwo [0, 1, 0, 1] (start exTwo [exRow 1687305600 1]) =
     ([Done (Written 0 2), Done (Failed UniqueConstraint)],
      [exRow 1687305600 1, exRow 1687392000 2, exRow 1687478400 3]) \<and>
   (\<exists>order. distinct order \<and> set order = {..<length exTwo} \<and>
      sequential None (map (nth exTwo) order) [exRow 1687305600 1] =
        [exRow 1687305600 1, exRow 1687392000 2, exRow 1687478400 3])"
proof -
  have nf: "\<forall>w \<in> set exTwo. \<not> forceRefresh (fst w)"
    by (simp add: exTwo_def exJob_def)
  have r: "run None exTwo [0, 1, 0, 1] (start exTwo [exRow 1687305600 1]) =
     ([Done (Written 0 2), Done (Failed UniqueConstraint)],
      [exRow 1687305600 1, exRow 1687392000 2, exRow 1687478400 3])"
    by code_simp
  have d: "\<forall>p \<in> set [Done (Written 0 2), Done (Failed UniqueConstraint)]. isDone p"
    by (simp add: isDone_def)
  from appending_invocations_serializable [OF nf r d] r show ?thesis by simp
qed

text \<open>
  C8, as the claim states it, fails. The refreshing invocation and the appending one
  both validate against 2023-06-21; the refresh deletes, the append inserts its row, the
  refresh's insert throws. The table left holds the appended row alone, which neither
  order of the two invocations, nor either of them alone, nor none, produces.
\<close>

theorem refresh_race_not_serial_counterexample:
  "run None exRace [0, 1, 0, 1, 0] (start exRace [exRow 1687305600 1]) =
     ([Done (Failed UniqueConstraint), Done (Written 0 1)], [exRow 1687392000 9]) \<and>
   sequential None [exRace ! 0, exRace ! 1] [exRow 1687305600 1] =
     [exRow 1687392000 2, exRow 1687478400 3] \<and>
   sequential None [exRace ! 1, exRace ! 0] [exRow 1687305600 1] =
     [exRow 1687305600 1, exRow 1687392000 9] \<and>
   snd (run None exRace [0, 1, 0, 1, 0] (start exRace [exRow 1687305600 1])) \<notin>
     {sequential None [] [exRow 1687305600 1],
      sequential None [exRace ! 0] [exRow 1687305600 1],
      sequential None [exRace ! 1] [exRow 1687305600 1],
      sequential None [exRace ! 0, exRace ! 1] [exRow 1687305600 1],
      sequential None [exRace ! 1, exRace ! 0] [exRow 1687305600 1]}"
  by code_simp

end
